theory Spec2Isabelle
  imports Complex_Main "HOL-Library.Word"
begin

unbundle bit_operations_syntax

section \<open>Data model\<close>

text \<open>
  The sources embedded here are \<^verbatim>\<open>src/modules/WebSDRModule.cpp\<close> (the audio ring
  buffer filled by the audio callback and drained by \<^verbatim>\<open>getResampledAudio\<close>) and
  \<^verbatim>\<open>src/network/WebSDRClient.cpp\<close> (the WebSocket client).

  Samples are C++ \<^verbatim>\<open>float\<close>s. They are modelled as \<^typ>\<open>real\<close>: every sample the
  client produces is a 16-bit integer divided by \<open>2^15\<close>, which a binary32 float holds
  exactly, and the properties stated about the resampler do not depend on rounding. The
  ring buffer operations themselves are polymorphic in the sample type.
  Positions are \<^verbatim>\<open>size_t\<close>; they stay below the buffer size, so \<^typ>\<open>nat\<close> models
  them without wrap-around. Bytes are \<^verbatim>\<open>uint8_t\<close>, modelled as 8-bit words.
\<close>

type_synonym byte = "8 word"

text \<open>The members of \<^verbatim>\<open>WebSDRModule\<close> that the audio path uses.\<close>

record 'a module_state =
  audioBuffer :: "'a list"
  readPos :: nat
  writePos :: nat
  lastSample :: 'a
  resamplePhase :: real

text \<open>
  The members of \<^verbatim>\<open>WebSDRClient\<close>. \<open>receiveThreadJoinable\<close> stands for
  \<^verbatim>\<open>receiveThread.joinable()\<close> and \<open>audioCallbackSet\<close> for the truth value of the
  \<^verbatim>\<open>std::function\<close> member \<^verbatim>\<open>audioCallback\<close>.
\<close>

record client_state =
  connected :: bool
  shouldStop :: bool
  socketFd :: int
  receiveThreadJoinable :: bool
  audioCallbackSet :: bool

text \<open>
  The effects of the client on its environment, in program order: stores to the two atomic
  flags and to the socket handle, system calls on the socket, thread start and join, the
  pacing sleeps (milliseconds), invocations of the audio callback and the one diagnostic
  line that depends on received data.
\<close>

datatype event =
    SetShouldStop bool
  | SetConnected bool
  | SetSocketFd int
  | CloseSocket int
  | SendRequest string int
  | Send "byte list"
  | StartThread
  | JoinThread
  | Sleep nat
  | AudioCallback "real list"
  | ServerMessage "byte list"

text \<open>
  What one \<^verbatim>\<open>select\<close>/\<^verbatim>\<open>recv\<close> round delivers: no data within the timeout, the bytes
  of one \<^verbatim>\<open>recv\<close> (the empty list is a return value of 0, the peer closed), or an error.
\<close>

datatype io = Timeout | Recv "byte list" | RecvError

datatype loop_ctl = Next | Break

datatype loop_status = Running | Exited

text \<open>
  The one way the modelled code ends the process: \<^verbatim>\<open>connect\<close> assigns the new thread to
  \<^verbatim>\<open>receiveThread\<close>, and assigning to a \<^verbatim>\<open>std::thread\<close> that is still joinable calls
  \<^verbatim>\<open>std::terminate\<close>.
\<close>

datatype error = Terminated

text \<open>The outcomes of the system calls that \<^verbatim>\<open>connect\<close> makes before the handshake.\<close>

record connect_env =
  dns_ok :: bool
  socket_result :: int
  tcp_connect_ok :: bool
  handshake_recv :: io

section \<open>Audio ring buffer (WebSDRModule.cpp)\<close>

text \<open>
  The constructor and \<^verbatim>\<open>onReset\<close>: a zero-filled buffer, both positions 0, the resampler
  registers 0. The module sizes the buffer with \<^verbatim>\<open>audioBuffer.resize(48000)\<close>; all code
  below reads the size back with \<^verbatim>\<open>audioBuffer.size()\<close>, so the size is a parameter here.
\<close>

definition new_module :: "nat \<Rightarrow> ('a::zero) module_state" where
  "new_module n =
     \<lparr>audioBuffer = replicate n 0, readPos = 0, writePos = 0, lastSample = 0, resamplePhase = 0\<rparr>"

definition module_capacity :: nat where
  "module_capacity = 48000"

text \<open>The body of the loop in the audio callback, for one sample.\<close>

definition write_sample :: "'a \<Rightarrow> 'a module_state \<Rightarrow> 'a module_state" where
  "write_sample x s =
     (let s1 = s\<lparr>audioBuffer := (audioBuffer s)[writePos s := x]\<rparr>;
          s2 = s1\<lparr>writePos := (writePos s1 + 1) mod length (audioBuffer s1)\<rparr>
      in if writePos s2 = readPos s2
         then s2\<lparr>readPos := (readPos s2 + 1) mod length (audioBuffer s2)\<rparr>
         else s2)"

text \<open>The audio callback: \<^verbatim>\<open>for (size_t i = 0; i < count; i++)\<close> over the samples.\<close>

fun audio_callback :: "'a list \<Rightarrow> 'a module_state \<Rightarrow> 'a module_state" where
  "audio_callback [] s = s"
| "audio_callback (x # xs) s = audio_callback xs (write_sample x s)"

text \<open>The body of the read loop in \<^verbatim>\<open>getResampledAudio\<close>: one guarded read.\<close>

definition read_sample :: "'a module_state \<Rightarrow> 'a module_state" where
  "read_sample s =
     (if readPos s \<noteq> writePos s
      then s\<lparr>lastSample := audioBuffer s ! readPos s,
             readPos := (readPos s + 1) mod length (audioBuffer s)\<rparr>
      else s)"

text \<open>\<^verbatim>\<open>for (int i = 0; i < advance; i++)\<close> around that body.\<close>

fun advance_read :: "nat \<Rightarrow> 'a module_state \<Rightarrow> 'a module_state" where
  "advance_read 0 s = s"
| "advance_read (Suc n) s = advance_read n (read_sample s)"

text \<open>
  Reading while the read position differs from the write position, at most \<open>n\<close> times,
  and collecting the value each read stores in \<open>lastSample\<close>.
\<close>

fun drain :: "nat \<Rightarrow> 'a module_state \<Rightarrow> 'a list" where
  "drain 0 s = []"
| "drain (Suc n) s =
     (if readPos s \<noteq> writePos s
      then lastSample (read_sample s) # drain n (read_sample s)
      else [])"

text \<open>Both positions index into the buffer.\<close>

definition ring_ok :: "'a module_state \<Rightarrow> bool" where
  "ring_ok s \<longleftrightarrow> readPos s < length (audioBuffer s) \<and> writePos s < length (audioBuffer s)"

text \<open>The number of unread samples, and the unread samples from oldest to newest.\<close>

definition avail :: "'a module_state \<Rightarrow> nat" where
  "avail s = (if readPos s \<le> writePos s then writePos s - readPos s
              else writePos s + length (audioBuffer s) - readPos s)"

definition pending :: "'a module_state \<Rightarrow> 'a list" where
  "pending s =
     map (\<lambda>i. audioBuffer s ! ((readPos s + i) mod length (audioBuffer s))) [0..<avail s]"

section \<open>Resampler (WebSDRModule.cpp)\<close>

text \<open>
  \<^verbatim>\<open>getResampledAudio\<close>. The cast \<^verbatim>\<open>(int)resamplePhase\<close> is taken where the phase is at
  least 1, so truncation is the floor; the range of \<^verbatim>\<open>int\<close> is not modelled.
\<close>

definition getResampledAudio :: "real \<Rightarrow> real module_state \<Rightarrow> real \<times> real module_state" where
  "getResampledAudio engineRate s =
     (let sourceRate = 12000;
          resampleRatio = sourceRate / engineRate;
          s1 = s\<lparr>resamplePhase := resamplePhase s + resampleRatio\<rparr>;
          s2 = (if resamplePhase s1 \<ge> 1
                then (let advance = nat \<lfloor>resamplePhase s1\<rfloor>
                      in advance_read advance
                           (s1\<lparr>resamplePhase := resamplePhase s1 - real advance\<rparr>))
                else s1);
          nextSample = (if readPos s2 \<noteq> writePos s2 then audioBuffer s2 ! readPos s2
                        else lastSample s2)
      in (lastSample s2 + (nextSample - lastSample s2) * resamplePhase s2, s2))"

text \<open>Consecutive calls, one per engine tick, each with the engine rate of that tick.\<close>

fun pull_samples :: "real list \<Rightarrow> real module_state \<Rightarrow> real list \<times> real module_state" where
  "pull_samples [] s = ([], s)"
| "pull_samples (rate # rates) s =
     (let (y, s') = getResampledAudio rate s;
          (ys, s'') = pull_samples rates s'
      in (y # ys, s''))"

text \<open>
  What the two callers do to the module over time: the receive thread writes batches through
  the audio callback, and \<^verbatim>\<open>process\<close> pulls one output sample per engine tick.
\<close>

datatype module_op = Write "real list" | Pull real

text \<open>
  The samples one call of \<^verbatim>\<open>getResampledAudio\<close> consumes: as many of the oldest unread
  samples as the unread count goes down by during the call. It is read off the buffer
  contents, not off the \<open>lastSample\<close> register.
\<close>

definition consumed_by :: "real \<Rightarrow> real module_state \<Rightarrow> real list" where
  "consumed_by rate s = take (avail s - avail (snd (getResampledAudio rate s))) (pending s)"

text \<open>
  A history of writes and pulls: all samples consumed along it, oldest first, and the
  module state it ends in.
\<close>

fun history :: "module_op list \<Rightarrow> real module_state \<Rightarrow> real list \<times> real module_state" where
  "history [] s = ([], s)"
| "history (Write xs # ops) s = history ops (audio_callback xs s)"
| "history (Pull rate # ops) s =
     (let (c, s') = history ops (snd (getResampledAudio rate s))
      in (consumed_by rate s @ c, s'))"

section \<open>WebSocket client (WebSDRClient.cpp)\<close>

definition bytes_of :: "string \<Rightarrow> byte list" where
  "bytes_of str = map of_char str"

text \<open>The state a \<^verbatim>\<open>WebSDRClient\<close> is constructed in.\<close>

definition new_client :: client_state where
  "new_client = \<lparr>connected = False, shouldStop = False, socketFd = - 1,
     receiveThreadJoinable = False, audioCallbackSet = False\<rparr>"

subsection \<open>Outbound frames\<close>

definition mask_key :: "byte list" where
  "mask_key = [0x12, 0x34, 0x56, 0x78]"

text \<open>
  \<^verbatim>\<open>sendWebSocketFrame\<close>: the bytes handed to \<^verbatim>\<open>send\<close>, or \<open>None\<close> where the function
  returns false without sending (no socket, or 126 bytes and more of data).
\<close>

definition sendWebSocketFrame :: "byte list \<Rightarrow> client_state \<Rightarrow> byte list option" where
  "sendWebSocketFrame data s =
     (if socketFd s < 0 then None
      else if length data < 126
      then Some ([0x81, 0x80 OR of_nat (length data)] @ mask_key @
                 map (\<lambda>i. data ! i XOR mask_key ! (i mod 4)) [0..<length data])
      else None)"

definition send_events :: "byte list \<Rightarrow> client_state \<Rightarrow> event list" where
  "send_events data s = (case sendWebSocketFrame data s of None \<Rightarrow> [] | Some f \<Rightarrow> [Send f])"

text \<open>
  What a receiver reads back from a masked short-form frame: the payload bytes with the
  mask key of bytes 2 to 5 removed. Used to state what a transmitted frame carries.
\<close>

definition unmask :: "byte list \<Rightarrow> byte list" where
  "unmask f = map (\<lambda>i. f ! (6 + i) XOR f ! (2 + i mod 4)) [0..<length f - 6]"

subsection \<open>Tuning commands\<close>




subsection \<open>Audio packets\<close>

text \<open>
  \<^verbatim>\<open>(int16_t)(data[i] | (data[i+1] << 8))\<close> divided by \<^verbatim>\<open>32768.0f\<close>: the bytes are
  promoted to \<^verbatim>\<open>int\<close>, combined, and narrowed to 16 bits.
\<close>

definition pcm_sample :: "byte \<Rightarrow> byte \<Rightarrow> real" where
  "pcm_sample lo hi =
     real_of_int (sint (ucast ((ucast lo OR push_bit 8 (ucast hi)) :: 32 word) :: 16 word)) / 32768"

text \<open>\<^verbatim>\<open>for (size_t i = 0; i + 1 < len; i += 2)\<close>: a last odd byte is left out.\<close>

fun pcm_decode :: "byte list \<Rightarrow> real list" where
  "pcm_decode (lo # hi # rest) = pcm_sample lo hi # pcm_decode rest"
| "pcm_decode _ = []"

text \<open>
  \<^verbatim>\<open>processAudioPacket\<close>: the argument the audio callback is invoked with, or \<open>None\<close>
  where it is not invoked.
\<close>

definition processAudioPacket :: "byte list \<Rightarrow> client_state \<Rightarrow> real list option" where
  "processAudioPacket data s =
     (if length data > 4 \<and> take 4 data = bytes_of ''MSG '' then None
      else (let samples = pcm_decode data
            in if samples \<noteq> [] \<and> audioCallbackSet s then Some samples else None))"

subsection \<open>Receive loop\<close>

text \<open>\<^verbatim>\<open>strstr\<close> and \<^verbatim>\<open>std::string::find\<close>: does the needle occur in the text.\<close>

fun occurs_in :: "byte list \<Rightarrow> byte list \<Rightarrow> bool" where
  "occurs_in needle [] = (needle = [])"
| "occurs_in needle (h # t) = (take (length needle) (h # t) = needle \<or> occurs_in needle t)"

text \<open>
  The length decoding of the receive loop: \<open>Some (payloadLen, headerLen)\<close>, or \<open>None\<close>
  where the loop takes its \<^verbatim>\<open>continue\<close> for the 64-bit length class.
\<close>

definition frame_length :: "byte list \<Rightarrow> (nat \<times> nat) option" where
  "frame_length buffer =
     (let received = length buffer;
          payloadLen = unat (buffer ! 1 AND 0x7F)
      in if payloadLen = 126 \<and> received \<ge> 4
         then Some (unat ((push_bit 8 (ucast (buffer ! 2)) OR ucast (buffer ! 3)) :: 32 word), 4)
         else if payloadLen = 127 \<and> received \<ge> 10 then None
         else Some (payloadLen, 2))"

text \<open>The branch on the opcode, with the payload bytes that are in the buffer.\<close>

definition dispatch :: "byte \<Rightarrow> byte list \<Rightarrow> byte list \<Rightarrow> client_state
    \<Rightarrow> loop_ctl \<times> client_state \<times> event list" where
  "dispatch opcode data buffer s =
     (if opcode = 2
      then (Next, s, case processAudioPacket data s of None \<Rightarrow> [] | Some xs \<Rightarrow> [AudioCallback xs])
      else if opcode = 1
      then (Next, s, if occurs_in (bytes_of ''MSG'') data then [] else [ServerMessage (take 100 data)])
      else if opcode = 9
      then (Next, s, [Send (buffer[0 := 0x8A])])
      else if opcode = 8
      then (Break, s\<lparr>shouldStop := True\<rparr>, [SetShouldStop True])
      else (Next, s, []))"

text \<open>The handling of one non-empty \<^verbatim>\<open>recv\<close> result (\<^verbatim>\<open>received > 0\<close>).\<close>

definition handle_chunk :: "byte list \<Rightarrow> client_state \<Rightarrow> loop_ctl \<times> client_state \<times> event list" where
  "handle_chunk buffer s =
     (let received = length buffer
      in if received \<ge> 2
         then (let opcode = buffer ! 0 AND 0x0F;
                   masked = (buffer ! 1 AND 0x80 \<noteq> 0)
               in case frame_length buffer of
                    None \<Rightarrow> (Next, s, [])
                  | Some (payloadLen, headerLen) \<Rightarrow>
                      if \<not> masked \<and> headerLen < received
                      then (let payload = drop headerLen buffer;
                                dataLen = min payloadLen (received - headerLen)
                            in dispatch opcode (take dataLen payload) buffer s)
                      else (Next, s, []))
         else (Next, s, []))"

text \<open>
  \<^verbatim>\<open>receiveLoop\<close> over the rounds the environment delivers. The loop leaves through its
  condition or a \<^verbatim>\<open>break\<close> and then clears \<open>connected\<close>; while rounds are still to come
  it is \<open>Running\<close>.
\<close>

fun receiveLoop :: "io list \<Rightarrow> client_state \<Rightarrow> loop_status \<times> client_state \<times> event list" where
  "receiveLoop [] s =
     (if shouldStop s \<or> socketFd s < 0
      then (Exited, s\<lparr>connected := False\<rparr>, [SetConnected False])
      else (Running, s, []))"
| "receiveLoop (r # rs) s =
     (if shouldStop s \<or> socketFd s < 0
      then (Exited, s\<lparr>connected := False\<rparr>, [SetConnected False])
      else (case r of
              Timeout \<Rightarrow> receiveLoop rs s
            | RecvError \<Rightarrow> (Exited, s\<lparr>connected := False\<rparr>, [SetConnected False])
            | Recv buffer \<Rightarrow>
                if buffer = []
                then (Exited, s\<lparr>connected := False\<rparr>, [SetConnected False])
                else (case handle_chunk (take 8192 buffer) s of
                        (Break, s', evs) \<Rightarrow>
                          (Exited, s'\<lparr>connected := False\<rparr>, evs @ [SetConnected False])
                      | (Next, s', evs) \<Rightarrow>
                          (case receiveLoop rs s' of (st, s'', evs') \<Rightarrow> (st, s'', evs @ evs')))))"

subsection \<open>connect and disconnect\<close>

text \<open>
  \<^verbatim>\<open>disconnect\<close>, statement by statement.
\<close>

definition disconnect :: "client_state \<Rightarrow> client_state \<times> event list" where
  "disconnect s =
     (let s1 = s\<lparr>shouldStop := True\<rparr>;
          s2 = s1\<lparr>connected := False\<rparr>;
          (s3, ev3) = (if socketFd s2 \<ge> 0
                       then (s2\<lparr>socketFd := - 1\<rparr>, [CloseSocket (socketFd s2), SetSocketFd (- 1)])
                       else (s2, []));
          (s4, ev4) = (if receiveThreadJoinable s3
                       then (s3\<lparr>receiveThreadJoinable := False\<rparr>, [JoinThread])
                       else (s3, []))
      in (s4, [SetShouldStop True, SetConnected False] @ ev3 @ ev4))"

text \<open>The commands \<^verbatim>\<open>connect\<close> sends after the upgrade, with the sleep before each.\<close>

definition init_commands :: "(nat \<times> string) list" where
  "init_commands =
     [(100, ''SET auth t=kiwi p=''),
      (100, ''SET AR OK in=12000 out=44100''),
      (100, ''SET squelch=0 max=0''),
      (100, ''SET genattn=0''),
      (100, ''SET mod=am low_cut=-4000 high_cut=4000 freq=7055.000''),
      (100, ''SET keepalive''),
      (0, ''SET AUDIO_COMP=0''),
      (0, ''SET AUDIO_START=1'')]"

definition init_events :: "client_state \<Rightarrow> event list" where
  "init_events s =
     concat (map (\<lambda>(ms, cmd). (if ms > 0 then [Sleep ms] else []) @ send_events (bytes_of cmd) s)
                 init_commands)"

text \<open>
  The handshake check: \<^verbatim>\<open>recv\<close> into \<^verbatim>\<open>char buffer[1024]\<close> takes at most 1023 bytes,
  the buffer is terminated after them, and \<^verbatim>\<open>strstr\<close> reads it as a C string, up to the
  first zero byte.
\<close>

definition upgrade_accepted :: "io \<Rightarrow> bool" where
  "upgrade_accepted r =
     (case r of
        Recv resp \<Rightarrow>
          (let buffer = take 1023 resp
           in length buffer > 0 \<and>
              occurs_in (bytes_of ''101 Switching Protocols'') (takeWhile (\<lambda>b. b \<noteq> 0) buffer))
      | _ \<Rightarrow> False)"

text \<open>
  \<^verbatim>\<open>connect\<close>, from the DNS lookup on; \<open>host\<close> and \<open>port\<close> are what the parsing of the
  URL at the top of the function yields. The result is the returned flag, the client
  afterwards and the effects in order.
\<close>

definition connect :: "connect_env \<Rightarrow> string \<Rightarrow> int \<Rightarrow> client_state
    \<Rightarrow> error + (bool \<times> client_state \<times> event list)" where
  "connect env host port s =
     (if \<not> dns_ok env then Inr (False, s, [])
      else (let s1 = s\<lparr>socketFd := socket_result env\<rparr>;
                ev1 = [SetSocketFd (socket_result env)]
            in if socketFd s1 < 0 then Inr (False, s1, ev1)
               else if \<not> tcp_connect_ok env
               then Inr (False, s1\<lparr>socketFd := - 1\<rparr>,
                         ev1 @ [CloseSocket (socketFd s1), SetSocketFd (- 1)])
               else (let ev2 = ev1 @ [SendRequest host port]
                     in if upgrade_accepted (handshake_recv env)
                        then (if receiveThreadJoinable s1 then Inl Terminated
                              else (let s2 = s1\<lparr>connected := True, shouldStop := False,
                                                receiveThreadJoinable := True\<rparr>
                                    in Inr (True, s2,
                                            ev2 @ [SetConnected True, SetShouldStop False, StartThread]
                                                @ init_events s2)))
                        else Inr (False, s1\<lparr>socketFd := - 1\<rparr>,
                                  ev2 @ [CloseSocket (socketFd s1), SetSocketFd (- 1)]))))"

section \<open>Reference definitions\<close>

text \<open>
  The sample a pair of bytes stands for, in the words of the wire format: the first byte is
  the low half of a 16-bit two's complement number.
\<close>

definition s16_le :: "byte \<Rightarrow> byte \<Rightarrow> int" where
  "s16_le lo hi =
     (let u = int (unat lo) + 256 * int (unat hi) in if u < 32768 then u else u - 65536)"

text \<open>A byte string begins with the control prefix.\<close>

definition begins_with_MSG :: "byte list \<Rightarrow> bool" where
  "begins_with_MSG data \<longleftrightarrow> take 4 data = bytes_of ''MSG ''"

text \<open>A byte string contains another as a contiguous part.\<close>

definition contains :: "byte list \<Rightarrow> byte list \<Rightarrow> bool" where
  "contains hay needle \<longleftrightarrow> (\<exists>ps ss. hay = ps @ needle @ ss)"

text \<open>The bytes a \<^verbatim>\<open>recv\<close> round delivered; none for a timeout or an error.\<close>

fun response_bytes :: "io \<Rightarrow> byte list" where
  "response_bytes (Recv resp) = resp"
| "response_bytes _ = []"

text \<open>In a list of effects, some occurrence of \<open>a\<close> comes before some occurrence of \<open>b\<close>.\<close>

fun precedes :: "'a \<Rightarrow> 'a \<Rightarrow> 'a list \<Rightarrow> bool" where
  "precedes a b [] = False"
| "precedes a b (x # xs) = ((x = a \<and> b \<in> set xs) \<or> precedes a b xs)"

text \<open>
  Two concrete situations used in the examples: a client in a running session (socket 3
  open, receive thread started, audio callback installed), and a server that answers the
  upgrade request with a 404 status line.
\<close>

definition streaming_client :: client_state where
  "streaming_client = \<lparr>connected = True, shouldStop = False, socketFd = 3,
     receiveThreadJoinable = True, audioCallbackSet = True\<rparr>"

definition not_found_server :: connect_env where
  "not_found_server = \<lparr>dns_ok = True, socket_result = 3, tcp_connect_ok = True,
     handshake_recv = Recv (bytes_of ''HTTP/1.1 404 Not Found'')\<rparr>"

section \<open>Ring buffer: what survives an overrun\<close>

lemma idx_mod:
  "r < n \<Longrightarrow> i < n \<Longrightarrow> (r + i) mod n = (if r + i < n then r + i else r + i - n)"
  for r i n :: nat
  by (auto simp: not_less le_mod_geq)

lemma suc_mod: "w < n \<Longrightarrow> Suc w mod n = (if Suc w = n then 0 else Suc w)"
  by (simp add: mod_Suc)

lemma idx_shift: "(Suc r mod n + i) mod n = Suc (r + i) mod n"
  by (simp add: mod_simps)

lemma drop_app_le: "d \<le> length zs \<Longrightarrow> drop d zs @ xs = drop d (zs @ xs)"
  by simp

lemma ring_ok_write: "ring_ok s \<Longrightarrow> ring_ok (write_sample x s)"
  by (auto simp: ring_ok_def write_sample_def Let_def suc_mod)

lemma ring_ok_read: "ring_ok s \<Longrightarrow> ring_ok (read_sample s)"
  by (auto simp: ring_ok_def read_sample_def suc_mod)

lemma avail_lt: "ring_ok s \<Longrightarrow> avail s < length (audioBuffer s)"
  by (auto simp: ring_ok_def avail_def)

lemma length_pending: "length (pending s) = avail s"
  by (simp add: pending_def)

lemma length_write: "length (audioBuffer (write_sample x s)) = length (audioBuffer s)"
  by (simp add: write_sample_def Let_def)

lemma idx_avail:
  "ring_ok s \<Longrightarrow> (readPos s + avail s) mod length (audioBuffer s) = writePos s"
  by (auto simp: ring_ok_def avail_def idx_mod)

lemma idx_before:
  "ring_ok s \<Longrightarrow> i < avail s \<Longrightarrow> (readPos s + i) mod length (audioBuffer s) \<noteq> writePos s"
  by (auto simp: ring_ok_def avail_def idx_mod split: if_splits)

lemma full_iff:
  "ring_ok s \<Longrightarrow>
   (Suc (writePos s) mod length (audioBuffer s) = readPos s) = (avail s = length (audioBuffer s) - 1)"
  by (auto simp: ring_ok_def avail_def suc_mod split: if_splits)

text \<open>A write into a buffer with room appends to the unread samples.\<close>

lemma pending_write_room:
  assumes ok: "ring_ok s" and nf: "avail s \<noteq> length (audioBuffer s) - 1"
  shows "pending (write_sample x s) = pending s @ [x]"
proof -
  let ?n = "length (audioBuffer s)"
  have ne: "Suc (writePos s) mod ?n \<noteq> readPos s" using full_iff[OF ok] nf by simp
  then have w: "write_sample x s = s\<lparr>audioBuffer := (audioBuffer s)[writePos s := x],
      writePos := Suc (writePos s) mod ?n\<rparr>"
    by (simp add: write_sample_def Let_def)
  have a: "avail (write_sample x s) = Suc (avail s)"
    using ok nf ne unfolding w by (auto simp: ring_ok_def avail_def suc_mod split: if_splits)
  show ?thesis
    using ok idx_avail[OF ok] idx_before[OF ok, THEN not_sym]
    by (simp add: pending_def a, simp add: w ring_ok_def)
qed

text \<open>A write into a buffer holding \<open>size - 1\<close> unread samples drops the oldest of them.\<close>

lemma pending_write_full:
  assumes ok: "ring_ok s" and f: "avail s = length (audioBuffer s) - 1"
  shows "pending (write_sample x s) = drop 1 (pending s @ [x])"
proof -
  let ?n = "length (audioBuffer s)"
  have e: "Suc (writePos s) mod ?n = readPos s" using full_iff[OF ok] f by simp
  then have w: "write_sample x s = s\<lparr>audioBuffer := (audioBuffer s)[writePos s := x],
      writePos := readPos s, readPos := Suc (readPos s) mod ?n\<rparr>"
    by (simp add: write_sample_def Let_def)
  have a: "avail (write_sample x s) = ?n - 1"
    using ok f e unfolding w by (auto simp: ring_ok_def avail_def suc_mod split: if_splits)
  show ?thesis
  proof (rule nth_equalityI)
    show "length (pending (write_sample x s)) = length (drop 1 (pending s @ [x]))"
      by (simp add: length_pending a f)
  next
    fix i assume "i < length (pending (write_sample x s))"
    then have i: "i < ?n - 1" by (simp add: length_pending a)
    have r: "readPos s < ?n" using ok by (simp add: ring_ok_def)
    have "pending (write_sample x s) ! i =
        (audioBuffer s)[writePos s := x] ! (Suc (readPos s + i) mod ?n)"
      using i r by (simp add: pending_def a, simp add: w idx_shift)
    also have "\<dots> = (pending s @ [x]) ! Suc i"
    proof (cases "Suc i < avail s")
      case True
      then show ?thesis
        using idx_before[OF ok True, THEN not_sym]
        by (simp add: nth_append length_pending, simp add: pending_def)
    next
      case False
      then have e: "avail s = Suc i" using i f by simp
      have "Suc (readPos s + i) mod ?n = writePos s" using idx_avail[OF ok] unfolding e by simp
      then show ?thesis using ok e by (simp add: nth_append length_pending ring_ok_def)
    qed
    also have "\<dots> = drop 1 (pending s @ [x]) ! i"
      using nth_drop[of 1 "pending s @ [x]" i] by simp
    finally show "pending (write_sample x s) ! i = drop 1 (pending s @ [x]) ! i" .
  qed
qed

lemma pending_write:
  assumes "ring_ok s"
  shows "pending (write_sample x s) =
     drop (Suc (avail s) - (length (audioBuffer s) - 1)) (pending s @ [x])"
proof (cases "avail s = length (audioBuffer s) - 1")
  case True
  then show ?thesis
    using pending_write_full[OF assms True] avail_lt[OF assms] by (simp add: Suc_diff_le)
next
  case False
  then have "Suc (avail s) - (length (audioBuffer s) - 1) = 0" using avail_lt[OF assms] by simp
  then show ?thesis using pending_write_room[OF assms False] by simp
qed

text \<open>The whole callback: the unread samples are the newest \<open>size - 1\<close> of old and new.\<close>

lemma pending_callback:
  "ring_ok s \<Longrightarrow>
   pending (audio_callback xs s) =
     drop (avail s + length xs - (length (audioBuffer s) - 1)) (pending s @ xs)
   \<and> ring_ok (audio_callback xs s)
   \<and> length (audioBuffer (audio_callback xs s)) = length (audioBuffer s)"
proof (induction xs arbitrary: s)
  case Nil
  then show ?case using avail_lt[of s] by (simp add: length_pending)
next
  case (Cons x xs)
  let ?n = "length (audioBuffer s)"
  let ?d = "Suc (avail s) - (?n - 1)"
  let ?s' = "write_sample x s"
  note ih = Cons.IH[OF ring_ok_write[OF Cons.prems], of x]
  have p': "pending ?s' = drop ?d (pending s @ [x])" by (rule pending_write[OF Cons.prems])
  have "length (drop ?d (pending s @ [x])) = length (pending s @ [x]) - ?d" by (rule length_drop)
  then have a': "avail ?s' = Suc (avail s) - ?d"
    using p' by (metis length_pending length_append_singleton)
  have app: "drop ?d (pending s @ [x]) @ xs = drop ?d ((pending s @ [x]) @ xs)"
    by (rule drop_app_le) (simp add: length_pending)
  have assoc: "(pending s @ [x]) @ xs = pending s @ x # xs" by simp
  have k: "avail ?s' + length xs - (?n - 1) + ?d = avail s + length (x # xs) - (?n - 1)"
    using avail_lt[OF Cons.prems] unfolding a' by auto
  have "pending (audio_callback (x # xs) s) =
      drop (avail ?s' + length xs - (?n - 1)) (pending ?s' @ xs)"
    using ih by (simp add: length_write)
  also have "\<dots> = drop (avail ?s' + length xs - (?n - 1) + ?d) (pending s @ x # xs)"
    unfolding p' app assoc by (simp only: drop_drop)
  finally have "pending (audio_callback (x # xs) s) =
      drop (avail s + length (x # xs) - (?n - 1)) (pending s @ x # xs)"
    unfolding k .
  then show ?case using ih by (simp add: length_write)
qed

text \<open>Successive invocations of the callback act as one invocation on all the samples.\<close>

lemma audio_callback_append:
  "audio_callback (xs @ ys) s = audio_callback ys (audio_callback xs s)"
  by (induction xs arbitrary: s) simp_all

text \<open>A read takes the oldest unread sample into \<open>lastSample\<close>.\<close>

lemma pending_read:
  assumes ok: "ring_ok s" and ne: "readPos s \<noteq> writePos s"
  shows "pending s = lastSample (read_sample s) # pending (read_sample s)"
proof -
  let ?n = "length (audioBuffer s)"
  have a: "avail s = Suc (avail (read_sample s))"
    using ok ne by (auto simp: ring_ok_def avail_def read_sample_def suc_mod)
  have r: "readPos s < ?n" using ok by (simp add: ring_ok_def)
  show ?thesis
    unfolding pending_def a upt_rec[of 0 "Suc _"]
    using ne r by (simp add: read_sample_def idx_shift map_Suc_upt[symmetric] del: upt_Suc)
qed

lemma pending_empty: "ring_ok s \<Longrightarrow> (pending s = []) = (readPos s = writePos s)"
  by (auto simp: pending_def avail_def ring_ok_def)

lemma read_sample_empty: "readPos s = writePos s \<Longrightarrow> read_sample s = s"
  by (simp add: read_sample_def)

lemma advance_read_empty: "readPos s = writePos s \<Longrightarrow> advance_read n s = s"
  by (induction n) (simp_all add: read_sample_empty)

lemma drain_pending: "ring_ok s \<Longrightarrow> drain n s = take n (pending s)"
proof (induction n arbitrary: s)
  case 0
  then show ?case by simp
next
  case (Suc n)
  show ?case
  proof (cases "readPos s = writePos s")
    case True
    then show ?thesis using pending_empty[OF Suc.prems] by simp
  next
    case False
    then show ?thesis
      using Suc.IH[OF ring_ok_read[OF Suc.prems]] pending_read[OF Suc.prems False] by simp
  qed
qed

lemma pending_advance_read:
  "ring_ok s \<Longrightarrow> pending (advance_read n s) = drop n (pending s) \<and> ring_ok (advance_read n s)"
proof (induction n arbitrary: s)
  case 0
  then show ?case by simp
next
  case (Suc n)
  show ?case
  proof (cases "readPos s = writePos s")
    case True
    then show ?thesis
      using pending_empty[OF Suc.prems] Suc.prems
      by (simp add: advance_read_empty read_sample_empty)
  next
    case False
    then show ?thesis
      using Suc.IH[OF ring_ok_read[OF Suc.prems]] pending_read[OF Suc.prems False] by simp
  qed
qed

text \<open>
  C1 (as amended). Start from any ring whose positions index into the buffer, with any
  contents, and let the audio callback write a batch of at least \<open>size - 1\<close> samples (so
  in particular more than \<open>size\<close>). Reading while the read position differs from the write
  position then yields exactly the \<open>size - 1\<close> most recent samples of the batch, in the
  order written, and nothing of what the buffer held before; after these reads the two
  positions are equal. One slot always stays unused, since equal positions mean empty.
\<close>

theorem ring_overrun_keeps_newest:
  assumes "ring_ok s"
    and "length (audioBuffer s) - 1 \<le> length xs"
    and "length (audioBuffer s) - 1 \<le> n"
  shows "drain n (audio_callback xs s) = drop (length xs - (length (audioBuffer s) - 1)) xs
    \<and> length (drain n (audio_callback xs s)) = length (audioBuffer s) - 1
    \<and> readPos (advance_read n (audio_callback xs s)) =
        writePos (advance_read n (audio_callback xs s))"
proof -
  let ?c = "length (audioBuffer s) - 1"
  let ?s' = "audio_callback xs s"
  note pc = pending_callback[OF assms(1), of xs]
  have ok': "ring_ok ?s'" using pc by simp
  have "avail s + length xs - ?c = length (pending s) + (length xs - ?c)"
    using assms(2) by (simp add: length_pending)
  then have p: "pending ?s' = drop (length xs - ?c) xs"
    using pc by simp
  then have l: "length (pending ?s') = ?c" using assms(2) by simp
  have d: "drain n ?s' = drop (length xs - ?c) xs"
    using drain_pending[OF ok', of n] l assms(3) unfolding p[symmetric] by simp
  have "pending (advance_read n ?s') = []"
    using pending_advance_read[OF ok', of n] l assms(3) by simp
  then have e: "readPos (advance_read n ?s') = writePos (advance_read n ?s')"
    using pending_empty[of "advance_read n ?s'"] pending_advance_read[OF ok', of n] by simp
  show ?thesis using d e l p by simp
qed

theorem ring_overrun_keeps_newest_witness:
  "ring_ok (new_module 4 :: nat module_state)
   \<and> drain 4 (audio_callback [1, 2, 3, 4, 5, 6] (new_module 4 :: nat module_state)) = [4, 5, 6]
   \<and> length (drain module_capacity
         (audio_callback [0..<48001] (new_module module_capacity :: nat module_state))) = 47999"
proof -
  have ok: "ring_ok (new_module 4 :: nat module_state)"
    by (simp add: new_module_def ring_ok_def)
  have len: "length (audioBuffer (new_module 4 :: nat module_state)) = 4"
    by (simp add: new_module_def)
  have ok': "ring_ok (new_module module_capacity :: nat module_state)"
    by (simp add: new_module_def ring_ok_def module_capacity_def)
  have len': "length (audioBuffer (new_module module_capacity :: nat module_state)) = 48000"
    by (simp add: new_module_def module_capacity_def)
  have small: "drain 4 (audio_callback [1, 2, 3, 4, 5, 6] (new_module 4 :: nat module_state))
      = [4, 5, 6]"
    using ring_overrun_keeps_newest[OF ok, of "[1, 2, 3, 4, 5, 6]" 4] by (simp add: len)
  have big: "length (drain module_capacity
      (audio_callback [0..<48001] (new_module module_capacity :: nat module_state))) = 47999"
    using ring_overrun_keeps_newest[OF ok', of "[0..<48001]" module_capacity]
    by (simp add: len', simp add: module_capacity_def)
  show ?thesis using ok small big by simp
qed

text \<open>
  C1 as stated fails: after five writes into a buffer of four slots, three samples can be
  read back, not four; the sample \<open>2\<close> is dropped although it is among the four newest.
\<close>

theorem ring_overrun_capacity_counterexample:
  "length (audioBuffer (audio_callback [1, 2, 3, 4, 5] (new_module 4 :: nat module_state))) = 4
   \<and> drain 5 (audio_callback [1, 2, 3, 4, 5] (new_module 4 :: nat module_state)) = [3, 4, 5]
   \<and> drain 5 (audio_callback [1, 2, 3, 4, 5] (new_module 4 :: nat module_state)) \<noteq> [2, 3, 4, 5]"
  by code_simp

section \<open>Audio packets\<close>

lemma bytes_disjoint: "(ucast (lo::byte) :: 32 word) AND push_bit 8 (ucast (hi::byte)) = 0"
  by (auto simp: bit_eq_iff bit_simps dest: bit_imp_le_length)

lemma or_add: "(ucast (lo::byte) :: 32 word) OR push_bit 8 (ucast (hi::byte)) = ucast lo + push_bit 8 (ucast hi)"
  using disjunctive_add_eq_or[OF bytes_disjoint] by simp

lemma uint_comb: "uint ((ucast (lo::byte) :: 32 word) + push_bit 8 (ucast (hi::byte))) = uint lo + 256 * uint hi"
proof -
  have 1: "uint lo < 256" "uint hi < 256" using uint_lt2p[of lo] uint_lt2p[of hi] by simp_all
  have 2: "0 \<le> uint lo" "0 \<le> uint hi" by simp_all
  show ?thesis
    using 1 2 
    by (simp add: uint_word_ariths push_bit_eq_mult uint_up_ucast is_up)
qed

lemma sint16: "sint (w :: 16 word) = (if uint w < 32768 then uint w else uint w - 65536)"
proof -
  have b: "0 \<le> uint w" "uint w < 65536" using uint_lt2p[of w] by simp_all
  have "sint w = (uint w + 32768) mod 65536 - 32768"
    by (simp add: sint_uint signed_take_bit_eq_take_bit_shift take_bit_eq_mod)
  moreover have "(uint w + 32768) mod 65536 = uint w + 32768" if "uint w < 32768"
    using that b by (intro mod_pos_pos_trivial) simp_all
  moreover have "(uint w + 32768) mod 65536 = uint w - 32768" if "\<not> uint w < 32768"
    using that b by (intro int_mod_pos_eq[where q = 1]) simp_all
  ultimately show ?thesis by simp
qed

lemma pcm_sample_s16: "pcm_sample lo hi = real_of_int (s16_le lo hi) / 32768"
proof -
  let ?w = "ucast ((ucast lo OR push_bit 8 (ucast hi)) :: 32 word) :: 16 word"
  have 1: "uint lo < 256" "uint hi < 256" using uint_lt2p[of lo] uint_lt2p[of hi] by simp_all
  have "uint ?w = (uint lo + 256 * uint hi) mod 65536"
    unfolding or_add by (simp add: unsigned_ucast_eq uint_comb take_bit_eq_mod)
  also have "\<dots> = uint lo + 256 * uint hi" using 1 by simp
  finally have u: "uint ?w = int (unat lo) + 256 * int (unat hi)" by simp
  show ?thesis
    unfolding pcm_sample_def s16_le_def sint16 u by (simp add: Let_def)
qed

lemma pcm_decode_nth:
  "pcm_decode data =
     map (\<lambda>i. pcm_sample (data ! (2 * i)) (data ! (2 * i + 1))) [0..<length data div 2]"
proof (induction data rule: pcm_decode.induct)
  case (1 lo hi rest)
  have "[0..<Suc (length rest div 2)] = 0 # map Suc [0..<length rest div 2]"
    by (simp add: upt_conv_Cons map_Suc_upt del: upt_Suc)
  then show ?case using 1 by (simp add: comp_def del: upt_Suc)
qed simp_all

lemma pcm_sample_range: "- 1 \<le> pcm_sample lo hi \<and> pcm_sample lo hi < 1"
proof -
  let ?w = "ucast ((ucast lo OR push_bit 8 (ucast hi)) :: 32 word) :: 16 word"
  have "- 32768 \<le> sint ?w" "sint ?w < 32768" using sint_ge[of ?w] sint_lt[of ?w] by simp_all
  then have "- 32768 \<le> real_of_int (sint ?w)" "real_of_int (sint ?w) < 32768" by linarith+
  then show ?thesis unfolding pcm_sample_def by (simp del: of_int_sint)
qed


lemma pcm_decode_empty_iff: "(pcm_decode data = []) = (length data < 2)"
  by (induction data rule: pcm_decode.induct) simp_all

text \<open>
  C5. A payload that does not begin with \<open>MSG \<close> is decoded pairwise: sample \<open>i\<close> is the
  little-endian signed 16-bit number in bytes \<open>2i\<close> and \<open>2i+1\<close>, divided by 32768, a value
  in \<open>[-1, 1)\<close>; a last odd byte is left out. These samples are what the audio callback
  is invoked with (it is not invoked when there is no complete pair). The four bytes
  \<open>00 40 00 C0\<close> give \<open>0.5\<close> and \<open>-0.5\<close>.
\<close>

theorem pcm_payload_decoded:
  assumes "\<not> begins_with_MSG data" and "audioCallbackSet s"
  shows "processAudioPacket data s =
      (if length data < 2 then None
       else Some (map (\<lambda>i. real_of_int (s16_le (data ! (2 * i)) (data ! (2 * i + 1))) / 32768)
                      [0..<length data div 2]))
    \<and> (\<forall>i < length data div 2.
          - 1 \<le> real_of_int (s16_le (data ! (2 * i)) (data ! (2 * i + 1))) / 32768
          \<and> real_of_int (s16_le (data ! (2 * i)) (data ! (2 * i + 1))) / 32768 < 1)
    \<and> processAudioPacket [0x00, 0x40, 0x00, 0xC0] s = Some [1 / 2, - (1 / 2)]"
proof -
  have m: "\<not> (length data > 4 \<and> take 4 data = bytes_of ''MSG '')"
    using assms(1) by (simp add: begins_with_MSG_def)
  have d: "pcm_decode data =
      map (\<lambda>i. real_of_int (s16_le (data ! (2 * i)) (data ! (2 * i + 1))) / 32768)
          [0..<length data div 2]"
    by (simp add: pcm_decode_nth pcm_sample_s16)
  have 1: "processAudioPacket data s =
      (if length data < 2 then None
       else Some (map (\<lambda>i. real_of_int (s16_le (data ! (2 * i)) (data ! (2 * i + 1))) / 32768)
                      [0..<length data div 2]))"
    using m assms(2) pcm_decode_empty_iff[of data] unfolding d[symmetric]
    by (simp add: processAudioPacket_def Let_def)
  have 2: "\<forall>i < length data div 2.
          - 1 \<le> real_of_int (s16_le (data ! (2 * i)) (data ! (2 * i + 1))) / 32768
          \<and> real_of_int (s16_le (data ! (2 * i)) (data ! (2 * i + 1))) / 32768 < 1"
    using pcm_sample_range unfolding pcm_sample_s16 by blast
  have 3: "processAudioPacket [0x00, 0x40, 0x00, 0xC0] s = Some [1 / 2, - (1 / 2)]"
    using assms(2) by (simp add: processAudioPacket_def pcm_sample_def)
  show ?thesis using 1 2 3 by blast
qed

theorem pcm_payload_decoded_witness:
  "\<not> begins_with_MSG [0xFF, 0x7F, 0x00, 0x80, 0x01]
   \<and> processAudioPacket [0xFF, 0x7F, 0x00, 0x80, 0x01] (new_client\<lparr>audioCallbackSet := True\<rparr>)
       = Some [32767 / 32768, - 1]
   \<and> map (\<lambda>i. real_of_int (s16_le ([0xFF, 0x7F, 0x00, 0x80, 0x01] ! (2 * i))
                                    ([0xFF, 0x7F, 0x00, 0x80, 0x01] ! (2 * i + 1))) / 32768)
          [0..<length [0xFF, 0x7F, 0x00, 0x80, 0x01 :: byte] div 2]
       = [32767 / 32768, - 1]"
proof -
  let ?d = "[0xFF, 0x7F, 0x00, 0x80, 0x01] :: byte list"
  let ?s = "new_client\<lparr>audioCallbackSet := True\<rparr>"
  have a: "\<not> begins_with_MSG ?d"
    by (simp add: begins_with_MSG_def bytes_of_def)
  have b: "audioCallbackSet ?s" by simp
  have c: "processAudioPacket ?d ?s = Some [32767 / 32768, - 1]"
    by (simp add: processAudioPacket_def bytes_of_def pcm_sample_def)
  have "\<not> length ?d < 2" by simp
  then have "processAudioPacket ?d ?s =
      Some (map (\<lambda>i. real_of_int (s16_le (?d ! (2 * i)) (?d ! (2 * i + 1))) / 32768)
                [0..<length ?d div 2])"
    using pcm_payload_decoded[OF a b] by presburger
  then show ?thesis using a c by simp
qed

text \<open>A payload of more than four bytes that begins with \<open>MSG \<close> never reaches the callback.\<close>

lemma msg_payload_ignored:
  "length data > 4 \<Longrightarrow> begins_with_MSG data \<Longrightarrow> processAudioPacket data s = None"
  by (simp add: processAudioPacket_def begins_with_MSG_def)

text \<open>
  C8. The payload that consists of the four bytes \<open>MSG \<close> alone begins with the control
  prefix, yet the length test \<^verbatim>\<open>len > 4\<close> sends it down the audio path: the callback is
  invoked with two samples made of the letters.
\<close>

theorem bare_msg_prefix_decoded_as_audio:
  "begins_with_MSG (bytes_of ''MSG '')
   \<and> processAudioPacket (bytes_of ''MSG '') (new_client\<lparr>audioCallbackSet := True\<rparr>)
       = Some [21325 / 32768, 8263 / 32768]"
  by (simp add: begins_with_MSG_def processAudioPacket_def bytes_of_def pcm_sample_def)

text \<open>
  The scenario of one complete binary frame: header \<open>82 04\<close>, payload \<open>00 40 00 C0\<close>.
\<close>

lemma binary_frame_scenario:
  "receiveLoop [Recv [0x82, 0x04, 0x00, 0x40, 0x00, 0xC0]] streaming_client
     = (Running, streaming_client, [AudioCallback [1 / 2, - (1 / 2)]])"
  by (simp add: frame_length_def handle_chunk_def dispatch_def processAudioPacket_def
      bytes_of_def pcm_sample_def streaming_client_def)

section \<open>Receive loop: short and oversized frames\<close>




text \<open>
  C6 (as amended). A chunk of at least ten bytes whose length field is 127 is dropped
  whole: nothing is dispatched or sent, the client state is unchanged, and the loop goes
  on with the next \<^verbatim>\<open>recv\<close> round, which it parses from its first byte. The loop keeps
  no position in the byte stream, so whatever else the chunk held is dropped with it.
\<close>

theorem ext64_chunk_dropped:
  assumes "10 \<le> length buffer"
    and "unat (buffer ! 1 AND 0x7F) = 127"
    and "\<not> shouldStop s" and "0 \<le> socketFd s"
  shows "handle_chunk (take 8192 buffer) s = (Next, s, [])
    \<and> receiveLoop (Recv buffer # rest) s = receiveLoop rest s"
proof -
  have l: "10 \<le> length (take 8192 buffer)" using assms(1) by simp
  have n: "take 8192 buffer ! 1 = buffer ! 1" by simp
  have "frame_length (take 8192 buffer) = None"
    using l assms(2) unfolding frame_length_def n Let_def by simp
  then have h: "handle_chunk (take 8192 buffer) s = (Next, s, [])"
    using l by (simp add: handle_chunk_def Let_def)
  have "buffer \<noteq> []" using assms(1) by auto
  then show ?thesis using h assms(3,4) by (cases "receiveLoop rest s") simp
qed

theorem ext64_chunk_dropped_witness:
  "receiveLoop [Recv [0x82, 0x7F, 0, 0, 0, 0, 0, 0, 0, 1, 0xAA], Recv [0x82, 0x02, 0x00, 0x40]]
       streaming_client
   = receiveLoop [Recv [0x82, 0x02, 0x00, 0x40]] streaming_client
   \<and> receiveLoop [Recv [0x82, 0x02, 0x00, 0x40]] streaming_client
   = (Running, streaming_client, [AudioCallback [1 / 2]])"
proof -
  have a: "10 \<le> length [0x82, 0x7F, 0, 0, 0, 0, 0, 0, 0, 1, 0xAA :: byte]" by simp
  have b: "unat ([0x82, 0x7F, 0, 0, 0, 0, 0, 0, 0, 1, 0xAA :: byte] ! 1 AND 0x7F) = 127" by simp
  have c: "\<not> shouldStop streaming_client" "0 \<le> socketFd streaming_client"
    by (simp_all add: streaming_client_def)
  have d: "receiveLoop [Recv [0x82, 0x02, 0x00, 0x40]] streaming_client
      = (Running, streaming_client, [AudioCallback [1 / 2]])"
    by (simp add: frame_length_def handle_chunk_def dispatch_def processAudioPacket_def
        bytes_of_def pcm_sample_def streaming_client_def)
  show ?thesis
    using ext64_chunk_dropped[OF a b c, of "[Recv [0x82, 0x02, 0x00, 0x40]]"] d by simp
qed

text \<open>
  C6 as stated fails: when a frame with the 64-bit length form and the frame after it
  arrive in one chunk, the second frame is never decoded, although on its own it yields a
  sample.
\<close>

theorem ext64_next_frame_lost_counterexample:
  "receiveLoop [Recv [0x82, 0x02, 0x00, 0x40]] streaming_client
     = (Running, streaming_client, [AudioCallback [1 / 2]])
   \<and> receiveLoop [Recv ([0x82, 0x7F, 0, 0, 0, 0, 0, 0, 0, 1, 0xAA] @ [0x82, 0x02, 0x00, 0x40])]
        streaming_client
     = (Running, streaming_client, [])"
  by (simp add: frame_length_def handle_chunk_def dispatch_def processAudioPacket_def
      bytes_of_def pcm_sample_def streaming_client_def)

text \<open>
  With fewer than ten bytes in the chunk the \<^verbatim>\<open>continue\<close> is not taken: the length 127
  is used as it stands and the bytes after the two-byte header are dispatched.
\<close>

lemma ext64_short_chunk_dispatched:
  "receiveLoop [Recv [0x82, 0x7F, 0x00, 0x40]] streaming_client
     = (Running, streaming_client, [AudioCallback [1 / 2]])"
  by (simp add: frame_length_def handle_chunk_def dispatch_def processAudioPacket_def
      bytes_of_def pcm_sample_def streaming_client_def)

section \<open>Outbound frames\<close>

text \<open>
  Every frame built by \<open>sendWebSocketFrame\<close> is a text frame in the short length form,
  carries the fixed mask key, and unmasks to the data it was built from.
\<close>

lemma and_7F: "unat ((w :: byte) AND 0x7F) = unat w mod 128"
proof -
  have "(0x7F :: byte) = mask 7" by (simp add: mask_eq_exp_minus_1)
  then have "w AND 0x7F = take_bit 7 w" by (simp add: take_bit_eq_mask)
  then show ?thesis by (simp add: unsigned_take_bit_eq take_bit_eq_mod unat_mod_distrib)
qed

lemma bit_128: "bit (128 :: byte) k = (k = 7)"
proof -
  have "(128 :: byte) = push_bit 7 1" by simp
  then show ?thesis by (simp only: bit_simps) auto
qed

lemma or_80: "n < 128 \<Longrightarrow> (0x80 OR of_nat n :: byte) = 0x80 + of_nat n"
proof -
  assume n: "n < 128"
  have "\<not> bit n 7" using n by (simp add: bit_iff_odd)
  have "\<not> bit ((0x80 :: byte) AND of_nat n) k" for k
  proof
    assume "bit ((0x80 :: byte) AND of_nat n) k"
    then have a: "bit (128 :: byte) k" and b: "bit (of_nat n :: byte) k"
      by (simp_all add: bit_and_iff)
    from a have "k = 7" by (simp only: bit_128)
    with b have "bit n 7" by (simp add: bit_of_nat_iff)
    with \<open>\<not> bit n 7\<close> show False by simp
  qed
  then have "(0x80 :: byte) AND of_nat n = 0" by (simp add: bit_eq_iff)
  then show ?thesis by (simp add: disjunctive_add_eq_or)
qed

lemma short_length_field: "n < 126 \<Longrightarrow> unat ((0x80 OR of_nat n :: byte) AND 0x7F) = n"
  by (simp add: and_7F or_80 unat_word_ariths unat_of_nat)

lemma masked_bit_set: "(0x80 OR of_nat n :: byte) AND 0x80 = 0x80"
  by (simp add: bit_eq_iff bit_simps)

lemma mask_key_nth: "i < 4 \<Longrightarrow> ([0x81, b] @ mask_key @ xs) ! (2 + i) = mask_key ! i"
  by (simp add: mask_key_def nth_append nth_Cons')

lemma xor_twice: "(a XOR k) XOR k = (a :: byte)"
  by (simp add: xor.assoc)

lemma command_frame_shape:
  assumes "sendWebSocketFrame data s = Some f"
  shows "length data < 126 \<and> f ! 0 = 0x81
     \<and> f ! 1 AND 0x80 = 0x80 \<and> unat (f ! 1 AND 0x7F) = length data
     \<and> take 4 (drop 2 f) = mask_key \<and> length f = 6 + length data \<and> unmask f = data"
proof -
  let ?p = "map (\<lambda>i. data ! i XOR mask_key ! (i mod 4)) [0..<length data]"
  have l: "length data < 126"
    using assms by (auto simp: sendWebSocketFrame_def split: if_splits)
  have f: "f = [0x81, 0x80 OR of_nat (length data)] @ mask_key @ ?p"
    using assms by (auto simp: sendWebSocketFrame_def split: if_splits)
  have lm: "length mask_key = 4" by (simp add: mask_key_def)
  have len: "length f = 6 + length data" unfolding f by (simp add: lm)
  have pay: "f ! (6 + i) = data ! i XOR mask_key ! (i mod 4)" if "i < length data" for i
    using that unfolding f by (simp add: nth_append lm)
  have key: "f ! Suc (Suc (i mod 4)) = mask_key ! (i mod 4)" for i
    unfolding f using mask_key_nth[of "i mod 4"] by simp
  have "unmask f = map (\<lambda>i. data ! i) [0..<length data]"
    unfolding unmask_def len by (simp add: pay key xor_twice)
  then have u: "unmask f = data" by (simp add: map_nth)
  have b1: "f ! 1 = 0x80 OR of_nat (length data)" unfolding f by simp
  show ?thesis
    using l len u short_length_field[OF l] masked_bit_set[of "length data"]
    unfolding b1 by (simp add: f lm)
qed

lemma command_frames_masked:
  assumes "Send f \<in> set (send_events data s)"
  shows "f ! 1 AND 0x80 = 0x80 \<and> unat (f ! 1 AND 0x7F) = length data
     \<and> take 4 (drop 2 f) = mask_key \<and> unmask f = data"
proof -
  have "sendWebSocketFrame data s = Some f"
    using assms by (auto simp: send_events_def split: option.splits)
  then show ?thesis using command_frame_shape by blast
qed

text \<open>
  C4. The Pong reply does not go through \<open>sendWebSocketFrame\<close>: the loop overwrites the
  first byte of the received buffer and sends the buffer back. The branch is only reached
  for unmasked input, so the reply has its mask bit clear and no mask key.
\<close>

theorem pong_reply_unmasked:
  "receiveLoop [Recv [0x89, 0x02, 0x68, 0x69]] streaming_client
     = (Running, streaming_client, [Send [0x8A, 0x02, 0x68, 0x69]])
   \<and> [0x8A, 0x02, 0x68, 0x69 :: byte] ! 1 AND 0x80 = 0"
  by (simp add: frame_length_def handle_chunk_def dispatch_def streaming_client_def)

section \<open>Tuning commands\<close>



section \<open>Connecting and disconnecting\<close>

lemma occurs_in_contains: "occurs_in needle hay \<Longrightarrow> contains hay needle"
proof (induction hay)
  case Nil
  then show ?case by (simp add: contains_def)
next
  case (Cons h t)
  show ?case
  proof (cases "take (length needle) (h # t) = needle")
    case True
    then have "h # t = [] @ needle @ drop (length needle) (h # t)"
      by (metis append_Nil append_take_drop_id)
    then show ?thesis unfolding contains_def by blast
  next
    case False
    then have "contains t needle" using Cons by simp
    then obtain ps ss where "t = ps @ needle @ ss" unfolding contains_def by blast
    then have "h # t = (h # ps) @ needle @ ss" by simp
    then show ?thesis unfolding contains_def by blast
  qed
qed

lemma contains_occurs_in: "contains hay needle \<Longrightarrow> occurs_in needle hay"
proof (induction hay)
  case Nil
  then show ?case by (simp add: contains_def)
next
  case (Cons h t)
  then obtain ps ss where e: "h # t = ps @ needle @ ss" unfolding contains_def by blast
  show ?case
  proof (cases ps)
    case Nil
    then have "take (length needle) (h # t) = needle" using e by simp
    then show ?thesis by simp
  next
    case (Cons p ps')
    then have "t = ps' @ needle @ ss" using e by simp
    then have "contains t needle" unfolding contains_def by blast
    then show ?thesis using Cons.IH by simp
  qed
qed

lemma contains_prefix: "contains (take n xs) needle \<Longrightarrow> contains xs needle"
proof -
  assume "contains (take n xs) needle"
  then obtain ps ss where "take n xs = ps @ needle @ ss" unfolding contains_def by blast
  then have "xs = ps @ needle @ (ss @ drop n xs)"
    by (metis append_assoc append_take_drop_id)
  then show ?thesis unfolding contains_def by blast
qed

lemma contains_takeWhile: "contains (takeWhile P xs) needle \<Longrightarrow> contains xs needle"
proof -
  assume "contains (takeWhile P xs) needle"
  then obtain ps ss where "takeWhile P xs = ps @ needle @ ss" unfolding contains_def by blast
  then have "xs = ps @ needle @ (ss @ dropWhile P xs)"
    by (metis append_assoc takeWhile_dropWhile_id)
  then show ?thesis unfolding contains_def by blast
qed

lemma upgrade_accepted_contains:
  "upgrade_accepted r \<Longrightarrow> contains (response_bytes r) (bytes_of ''101 Switching Protocols'')"
  by (cases r)
     (auto simp: upgrade_accepted_def Let_def
           dest!: occurs_in_contains contains_takeWhile contains_prefix)

text \<open>A reply with the status line of a successful upgrade starts the session.\<close>

lemma upgrade_accepted_scenario:
  "upgrade_accepted (Recv (bytes_of ''HTTP/1.1 101 Switching Protocols''))"
  by (simp add: upgrade_accepted_def bytes_of_def)

lemma connect_success_scenario:
  "\<exists>s' evs. connect (not_found_server\<lparr>handshake_recv :=
        Recv (bytes_of ''HTTP/1.1 101 Switching Protocols'')\<rparr>) host port new_client
      = Inr (True, s', evs)
    \<and> connected s' \<and> receiveThreadJoinable s' \<and> socketFd s' = 3
    \<and> take 5 evs = [SetSocketFd 3, SendRequest host port, SetConnected True,
                     SetShouldStop False, StartThread]"
  using upgrade_accepted_scenario
  by (simp add: connect_def not_found_server_def new_client_def Let_def)

text \<open>
  C7. Take a client that is not in a session (not connected, no receive thread, no
  socket). If what the server sent in answer to the upgrade request does not contain
  \<open>101 Switching Protocols\<close>, or nothing was received, then \<open>connect\<close> returns false,
  the client is still not connected and holds no socket, and no receive thread was
  started.
\<close>

theorem failed_upgrade_rejected:
  assumes "\<not> contains (response_bytes (handshake_recv env)) (bytes_of ''101 Switching Protocols'')"
    and "\<not> connected s" and "\<not> receiveThreadJoinable s" and "socketFd s < 0"
  shows "\<exists>s' evs. connect env host port s = Inr (False, s', evs)
      \<and> \<not> connected s' \<and> \<not> receiveThreadJoinable s' \<and> socketFd s' < 0
      \<and> StartThread \<notin> set evs \<and> SetConnected True \<notin> set evs"
proof -
  have "\<not> upgrade_accepted (handshake_recv env)"
    using assms(1) upgrade_accepted_contains by blast
  then show ?thesis using assms(2-4) by (simp add: connect_def Let_def)
qed

lemma short_not_contains: "length xs < length needle \<Longrightarrow> \<not> contains xs needle"
  by (auto simp: contains_def)

theorem failed_upgrade_rejected_witness:
  "\<not> contains (bytes_of ''HTTP/1.1 404 Not Found'') (bytes_of ''101 Switching Protocols'')
   \<and> connect not_found_server ''kiwisdr.ve6slp.ca'' 8073 new_client =
       Inr (False, new_client,
            [SetSocketFd 3, SendRequest ''kiwisdr.ve6slp.ca'' 8073, CloseSocket 3, SetSocketFd (- 1)])"
proof -
  have a: "\<not> contains (response_bytes (handshake_recv not_found_server))
      (bytes_of ''101 Switching Protocols'')"
    by (rule short_not_contains) (simp add: not_found_server_def bytes_of_def)
  have b: "\<not> connected new_client" "\<not> receiveThreadJoinable new_client" "socketFd new_client < 0"
    by (simp_all add: new_client_def)
  obtain s' evs where c: "connect not_found_server ''kiwisdr.ve6slp.ca'' 8073 new_client = Inr (False, s', evs)"
    using failed_upgrade_rejected[OF a b] by blast
  have d: "connect not_found_server ''kiwisdr.ve6slp.ca'' 8073 new_client =
       Inr (False, new_client,
            [SetSocketFd 3, SendRequest ''kiwisdr.ve6slp.ca'' 8073, CloseSocket 3, SetSocketFd (- 1)])"
    using c by (simp add: connect_def not_found_server_def new_client_def Let_def split: if_splits)
  show ?thesis using a d by (simp add: not_found_server_def)
qed

text \<open>
  C3 (as amended). \<open>disconnect\<close> raises the stop flag, clears \<open>connected\<close>, closes and
  invalidates the socket when one is open, and joins the receive thread last, when it is
  joinable. On return the thread has been joined and the handle is invalid.
\<close>

theorem disconnect_order:
  "snd (disconnect s) =
     [SetShouldStop True, SetConnected False]
     @ (if 0 \<le> socketFd s then [CloseSocket (socketFd s), SetSocketFd (- 1)] else [])
     @ (if receiveThreadJoinable s then [JoinThread] else [])
   \<and> shouldStop (fst (disconnect s))
   \<and> \<not> connected (fst (disconnect s))
   \<and> socketFd (fst (disconnect s)) < 0
   \<and> \<not> receiveThreadJoinable (fst (disconnect s))"
  by (simp add: disconnect_def Let_def split: prod.splits)

text \<open>
  C3 as stated fails: for a client in a session the socket handle is invalidated before
  the join, not after it.
\<close>

theorem disconnect_closes_before_join_counterexample:
  "snd (disconnect streaming_client) =
     [SetShouldStop True, SetConnected False, CloseSocket 3, SetSocketFd (- 1), JoinThread]
   \<and> precedes (SetSocketFd (- 1)) JoinThread (snd (disconnect streaming_client))
   \<and> \<not> precedes JoinThread (SetSocketFd (- 1)) (snd (disconnect streaming_client))"
  by (simp add: disconnect_def streaming_client_def)

section \<open>Resampler underrun\<close>

lemma getResampledAudio_empty:
  assumes "readPos s = writePos s"
  shows "getResampledAudio rate s = (lastSample s, s\<lparr>resamplePhase := resamplePhase (snd (getResampledAudio rate s))\<rparr>)"
  using assms by (simp add: getResampledAudio_def Let_def advance_read_empty)

lemma pull_samples_empty:
  "readPos s = writePos s \<Longrightarrow>
     fst (pull_samples rates s) = replicate (length rates) (lastSample s)
     \<and> lastSample (snd (pull_samples rates s)) = lastSample s
     \<and> readPos (snd (pull_samples rates s)) = readPos s
     \<and> writePos (snd (pull_samples rates s)) = writePos s
     \<and> audioBuffer (snd (pull_samples rates s)) = audioBuffer s"
proof (induction rates arbitrary: s)
  case Nil
  then show ?case by simp
next
  case (Cons r rates)
  obtain y s' where g: "getResampledAudio r s = (y, s')" by (cases "getResampledAudio r s")
  have y: "y = lastSample s" and s': "s' = s\<lparr>resamplePhase := resamplePhase s'\<rparr>"
    using getResampledAudio_empty[OF Cons.prems, of r] g by simp_all
  have e: "readPos s' = writePos s'" "lastSample s' = lastSample s" "readPos s' = readPos s"
      "writePos s' = writePos s" "audioBuffer s' = audioBuffer s"
    using Cons.prems by (subst s', simp)+
  show ?case using Cons.IH[OF e(1)] g y e by (auto split: prod.splits)
qed

text \<open>
  What the register holds: reads store each sample they take, writes leave the register alone.
\<close>

lemma phase_irrelevant:
  "pending (s\<lparr>resamplePhase := p\<rparr>) = pending s"
  "avail (s\<lparr>resamplePhase := p\<rparr>) = avail s"
  "ring_ok (s\<lparr>resamplePhase := p\<rparr>) = ring_ok s"
  by (simp_all add: pending_def avail_def ring_ok_def)

lemma lastSample_write: "lastSample (write_sample x s) = lastSample s"
  by (simp add: write_sample_def Let_def)

lemma lastSample_callback: "lastSample (audio_callback xs s) = lastSample s"
  by (induction xs arbitrary: s) (simp_all add: lastSample_write)

lemma lastSample_advance_read:
  "ring_ok s \<Longrightarrow>
   lastSample (advance_read n s) =
     (if take n (pending s) = [] then lastSample s else last (take n (pending s)))"
proof (induction n arbitrary: s)
  case 0
  then show ?case by simp
next
  case (Suc n)
  show ?case
  proof (cases "readPos s = writePos s")
    case True
    then show ?thesis
      using pending_empty[OF Suc.prems] by (simp add: read_sample_empty advance_read_empty)
  next
    case False
    note p = pending_read[OF Suc.prems False]
    show ?thesis
      using Suc.IH[OF ring_ok_read[OF Suc.prems]] by (subst (1 2) p) simp
  qed
qed

lemma avail_advance_read:
  "ring_ok s \<Longrightarrow> avail s - avail (advance_read n s) = min n (avail s)"
proof -
  assume ok: "ring_ok s"
  have "avail (advance_read n s) = length (drop n (pending s))"
    using pending_advance_read[OF ok, of n] by (metis length_pending)
  then show ?thesis by (simp add: length_pending)
qed

lemma take_min_length: "take (min n (length xs)) xs = take n xs"
  by (simp add: min_def)

lemma getResampledAudio_register:
  assumes ok: "ring_ok s"
  shows "ring_ok (snd (getResampledAudio rate s))
    \<and> lastSample (snd (getResampledAudio rate s)) =
        (if consumed_by rate s = [] then lastSample s else last (consumed_by rate s))"
proof (cases "1 \<le> resamplePhase s + 12000 / rate")
  case True
  let ?n = "nat \<lfloor>resamplePhase s + 12000 / rate\<rfloor>"
  let ?s1 = "s\<lparr>resamplePhase := resamplePhase s + 12000 / rate - real ?n\<rparr>"
  have e: "snd (getResampledAudio rate s) = advance_read ?n ?s1"
    using True by (simp add: getResampledAudio_def Let_def)
  have ok1: "ring_ok ?s1" using ok by (simp add: phase_irrelevant)
  have c: "consumed_by rate s = take ?n (pending s)"
    unfolding consumed_by_def e
    using avail_advance_read[OF ok1, of ?n] take_min_length[of ?n "pending s"]
    by (simp add: phase_irrelevant length_pending)
  show ?thesis
    unfolding c e
    using lastSample_advance_read[OF ok1, of ?n] pending_advance_read[OF ok1, of ?n]
    by (simp add: phase_irrelevant)
next
  case False
  then have e: "snd (getResampledAudio rate s) = s\<lparr>resamplePhase := resamplePhase s + 12000 / rate\<rparr>"
    by (simp add: getResampledAudio_def Let_def)
  show ?thesis unfolding consumed_by_def e using ok by (simp add: phase_irrelevant)
qed

lemma history_register:
  "ring_ok s0 \<Longrightarrow> history ops s0 = (consumed, s) \<Longrightarrow>
   ring_ok s \<and> lastSample s = (if consumed = [] then lastSample s0 else last consumed)"
proof (induction ops arbitrary: s0 consumed)
  case Nil
  then show ?case by simp
next
  case (Cons a ops)
  show ?case
  proof (cases a)
    case (Write xs)
    have ok: "ring_ok (audio_callback xs s0)" using pending_callback[OF Cons.prems(1)] by simp
    show ?thesis
      using Cons.IH[OF ok, of consumed] Cons.prems(2) Write by (simp add: lastSample_callback)
  next
    case (Pull rate)
    let ?s1 = "snd (getResampledAudio rate s0)"
    obtain c where h: "history ops ?s1 = (c, s)" and cons: "consumed = consumed_by rate s0 @ c"
      using Cons.prems(2) Pull by (auto split: prod.splits)
    note g = getResampledAudio_register[OF Cons.prems(1), of rate]
    have ih: "ring_ok s \<and> lastSample s = (if c = [] then lastSample ?s1 else last c)"
      using Cons.IH[OF _ h] g by simp
    show ?thesis using ih g unfolding cons by simp
  qed
qed


lemma consumed_by_drain:
  assumes "ring_ok s"
  shows "consumed_by rate s =
     (if 1 \<le> resamplePhase s + 12000 / rate
      then drain (nat \<lfloor>resamplePhase s + 12000 / rate\<rfloor>) s else [])"
proof (cases "1 \<le> resamplePhase s + 12000 / rate")
  case True
  let ?n = "nat \<lfloor>resamplePhase s + 12000 / rate\<rfloor>"
  let ?s1 = "s\<lparr>resamplePhase := resamplePhase s + 12000 / rate - real ?n\<rparr>"
  have e: "snd (getResampledAudio rate s) = advance_read ?n ?s1"
    using True by (simp add: getResampledAudio_def Let_def)
  have ok1: "ring_ok ?s1" using assms by (simp add: phase_irrelevant)
  have "consumed_by rate s = take ?n (pending s)"
    unfolding consumed_by_def e
    using avail_advance_read[OF ok1, of ?n] take_min_length[of ?n "pending s"]
    by (simp add: phase_irrelevant length_pending)
  then show ?thesis using True drain_pending[OF assms, of ?n] by simp
next
  case False
  then have e: "snd (getResampledAudio rate s) = s\<lparr>resamplePhase := resamplePhase s + 12000 / rate\<rparr>"
    by (simp add: getResampledAudio_def Let_def)
  show ?thesis unfolding consumed_by_def e using False by (simp add: phase_irrelevant)
qed

text \<open>
  C9 (as amended). With the ring buffer empty, any number of consecutive pulls (at
  positive engine rates) each return the \<open>lastSample\<close> register and leave it and both
  positions as they were. The register's content is fixed by the history that led to the
  state: starting from the constructed or reset module, it is 0 if no sample was consumed
  and otherwise the sample consumed last, whatever its value; from any other starting
  state it is that state's register if nothing was consumed since.
\<close>

theorem underrun_holds_last_sample:
  assumes "readPos s = writePos s" and "rates \<noteq> []" and "\<forall>r \<in> set rates. 0 < r"
  shows "fst (pull_samples rates s) = replicate (length rates) (lastSample s)
     \<and> lastSample (snd (pull_samples rates s)) = lastSample s
     \<and> readPos (snd (pull_samples rates s)) = writePos (snd (pull_samples rates s))
     \<and> (\<forall>n ops consumed.
          0 < n \<and> (\<forall>rate. Pull rate \<in> set ops \<longrightarrow> 0 < rate)
          \<and> history ops (new_module n) = (consumed, s) \<longrightarrow>
          fst (pull_samples rates s) =
            replicate (length rates) (if consumed = [] then 0 else last consumed))
     \<and> (\<forall>s0 ops consumed.
          ring_ok s0 \<and> (\<forall>rate. Pull rate \<in> set ops \<longrightarrow> 0 < rate)
          \<and> history ops s0 = (consumed, s) \<longrightarrow>
          lastSample s = (if consumed = [] then lastSample s0 else last consumed))"
proof -
  note hold = pull_samples_empty[OF assms(1), of rates]
  have gen: "lastSample s = (if consumed = [] then lastSample s0 else last consumed)"
    if "ring_ok s0" "history ops s0 = (consumed, s)" for s0 ops consumed
    using history_register[OF that] by simp
  have new: "lastSample s = (if consumed = [] then 0 else last consumed)"
    if "0 < n" "history ops (new_module n) = (consumed, s)" for n ops consumed
  proof -
    have "ring_ok (new_module n :: real module_state)"
      using that(1) by (simp add: ring_ok_def new_module_def)
    from gen[OF this that(2)] show ?thesis by (simp add: new_module_def)
  qed
  show ?thesis using hold assms(1) gen new by auto
qed

theorem underrun_holds_last_sample_witness:
  "fst (history [Write [3 / 4], Pull 12000] (new_module 4)) = [3 / 4]
   \<and> readPos (snd (history [Write [3 / 4], Pull 12000] (new_module 4))) =
       writePos (snd (history [Write [3 / 4], Pull 12000] (new_module 4)))
   \<and> fst (pull_samples [48000, 44100, 48000]
           (snd (history [Write [3 / 4], Pull 12000] (new_module 4)))) = [3 / 4, 3 / 4, 3 / 4]"
proof -
  let ?ops = "[Write [3 / 4], Pull 12000]"
  let ?s = "snd (history ?ops (new_module 4))"
  have c: "fst (history ?ops (new_module 4)) = [3 / 4]"
    by (simp add: new_module_def write_sample_def read_sample_def getResampledAudio_def
        consumed_by_def avail_def pending_def Let_def)
  have a: "readPos ?s = writePos ?s"
    by (simp add: new_module_def write_sample_def read_sample_def getResampledAudio_def Let_def)
  have b: "[48000, 44100, 48000 :: real] \<noteq> []" by simp
  have p: "\<forall>r \<in> set [48000, 44100, 48000 :: real]. 0 < r" by simp
  have h: "history ?ops (new_module 4) = ([3 / 4], ?s)"
    using c by (metis prod.collapse)
  have q: "\<forall>rate. Pull rate \<in> set ?ops \<longrightarrow> 0 < rate" by simp
  have "fst (pull_samples [48000, 44100, 48000] ?s) =
      replicate (length [48000, 44100, 48000 :: real]) (if [3 / 4 :: real] = [] then 0 else last [3 / 4])"
    using underrun_holds_last_sample[OF a b p] h q by (metis zero_less_numeral)
  then show ?thesis using c a by (simp add: numeral_3_eq_3)
qed

text \<open>
  C9 as stated fails in its last part: after a sample of value 0 has been written and
  consumed, the buffer is empty and the underrun output is 0 although a sample was
  consumed.
\<close>

theorem underrun_zero_after_read_counterexample:
  "fst (history [Write [0], Pull 12000] (new_module 4)) = [0]
   \<and> readPos (snd (history [Write [0], Pull 12000] (new_module 4))) =
       writePos (snd (history [Write [0], Pull 12000] (new_module 4)))
   \<and> fst (pull_samples [12000, 12000] (snd (history [Write [0], Pull 12000] (new_module 4))))
       = [0, 0]"
  by (simp add: new_module_def write_sample_def read_sample_def getResampledAudio_def
      consumed_by_def avail_def pending_def Let_def)

end
